theory Spec2Isabelle
  imports Main
begin

section \<open>pubsubstar: values, patterns and contexts\<close>

text \<open>
  The development embeds \<^verbatim>\<open>src/index.js\<close> (pubsubstar v1.0.2): the three methods
  \<^verbatim>\<open>subscribe\<close>, \<^verbatim>\<open>unsubscribe\<close>, \<^verbatim>\<open>publish\<close> and the helper \<^verbatim>\<open>forEachTopic\<close>.

  JavaScript strings are modelled by \<^typ>\<open>string\<close>, i.e. lists of 8-bit code units; the
  backslash cannot be written inside a HOL string literal and is \<open>CHR 0x5C\<close>.
  Function objects are compared by reference in the source (\<^verbatim>\<open>indexOf\<close> uses strict
  equality), so a function value is its reference, a natural number.
\<close>

type_synonym fnref = nat

abbreviation backslash :: char where
  "backslash \<equiv> CHR 0x5C"

subsection \<open>Regular expressions (the fragment that is modelled)\<close>

text \<open>
  \<^verbatim>\<open>forEachTopic\<close> builds a \<^verbatim>\<open>RegExp\<close> from a string and calls \<^verbatim>\<open>test\<close> on it.
  The pattern language embedded here is the group-free fragment of the ECMAScript
  grammar: a disjunction of alternatives, each a sequence of terms; a term is one of
  the assertions \<^verbatim>\<open>^\<close> and \<^verbatim>\<open>$\<close> or an atom (a literal character or \<^verbatim>\<open>.\<close>) with an
  optional quantifier \<^verbatim>\<open>*\<close>, \<^verbatim>\<open>+\<close> or \<^verbatim>\<open>?\<close>. Groups, character classes, braces,
  lazy quantifiers, class escapes and flags are outside the fragment: the constructor
  returns \<open>None\<close> on them, and nothing is claimed about such patterns.
\<close>

datatype re_atom = Lit char | AnyChar

datatype re_quant = Once | ZeroOrMore | OneOrMore | ZeroOrOne

datatype re_term = AssertStart | AssertEnd | Atom re_atom re_quant

type_synonym alternative = "re_term list"

type_synonym pattern = "alternative list"

datatype token = TAtom re_atom | TStar | TPlus | TQuest | TBar | TCaret | TDollar

subsection \<open>JavaScript values, exceptions, the context\<close>

text \<open>
  \<open>VRegExp p\<close> is a \<^verbatim>\<open>RegExp\<close> object without flags whose pattern is \<open>p\<close>;
  \<open>VPromise n\<close> and \<open>VObj n\<close> are references to a promise and to any other object.
\<close>

datatype jsval =
    VUndefined
  | VNull
  | VBool bool
  | VNum int
  | VStr string
  | VFun fnref
  | VRegExp pattern
  | VPromise nat
  | VObj nat

text \<open>
  What a call can raise: the \<^verbatim>\<open>TypeError\<close>s of the source with their messages, a value
  thrown by a subscriber, and the outcome of \<^verbatim>\<open>new RegExp\<close> on a source string outside
  the modelled fragment (there the source raises \<^verbatim>\<open>SyntaxError\<close> or builds a pattern
  this development does not interpret).
\<close>

datatype exn = TypeError string | Thrown jsval | PatternNotModelled string

text \<open>
  The registry \<^verbatim>\<open>this._pubsub\<close> is an object created by \<^verbatim>\<open>Object.create(null)\<close>: its
  own properties in creation order, each holding the array of subscribers. The context
  is an ordinary extensible object, of which only the hidden property \<^verbatim>\<open>_pubsub\<close>
  matters; \<open>None\<close> is the property not being there yet.
\<close>

type_synonym registry = "(string \<times> fnref list) list"

record ctx =
  pubsub :: "registry option"

text \<open>
  A subscriber is called as \<^verbatim>\<open>subscribers[i].call(this, message)\<close>: it receives the
  context and the message and either throws a value (\<open>Inl\<close>) or returns one (\<open>Inr\<close>).
  Subscribers that subscribe or unsubscribe on the same context while they are being
  called are not modelled.
\<close>

type_synonym behaviour = "fnref \<Rightarrow> ctx \<Rightarrow> jsval \<Rightarrow> jsval + jsval"

type_synonym 'a callback =
  "fnref list \<Rightarrow> string \<Rightarrow> registry \<times> 'a \<Rightarrow> (registry \<times> 'a) \<times> exn option"

section \<open>The source, function by function\<close>

subsection \<open>typeof, instanceof, truthiness\<close>

definition is_string :: "jsval \<Rightarrow> bool" where
  "is_string v = (case v of VStr s \<Rightarrow> True | _ \<Rightarrow> False)"

definition is_function :: "jsval \<Rightarrow> bool" where
  "is_function v = (case v of VFun f \<Rightarrow> True | _ \<Rightarrow> False)"

definition is_regexp :: "jsval \<Rightarrow> bool" where
  "is_regexp v = (case v of VRegExp p \<Rightarrow> True | _ \<Rightarrow> False)"

definition truthy :: "jsval \<Rightarrow> bool" where
  "truthy v =
     (case v of
        VUndefined \<Rightarrow> False
      | VNull \<Rightarrow> False
      | VBool b \<Rightarrow> b
      | VNum n \<Rightarrow> n \<noteq> 0
      | VStr s \<Rightarrow> s \<noteq> []
      | _ \<Rightarrow> True)"

subsection \<open>The two replacements of line 187\<close>

text \<open>
  \<^verbatim>\<open>topics.replace(/([^\\])\*+/g, '$1.*')\<close>: scanning from the left, a character other
  than the backslash followed by a run of asterisks is replaced by that character and
  \<^verbatim>\<open>.*\<close>; the search resumes after the run.
\<close>

function replace_wildcards :: "string \<Rightarrow> string" where
  "replace_wildcards [] = []"
| "replace_wildcards [c] = [c]"
| "replace_wildcards (c # d # rest) =
     (if c \<noteq> backslash \<and> d = CHR ''*''
      then c # ''.*'' @ replace_wildcards (dropWhile (\<lambda>x. x = CHR ''*'') rest)
      else c # replace_wildcards (d # rest))"
  by pat_completeness auto
termination
  by (relation "measure length") (auto simp: less_Suc_eq_le intro: le_trans [OF length_dropWhile_le])

text \<open>\<^verbatim>\<open>.replace(/^\*/, '.*')\<close>: an asterisk at the very start becomes \<^verbatim>\<open>.*\<close>.\<close>

definition replace_leading :: "string \<Rightarrow> string" where
  "replace_leading s =
     (case s of [] \<Rightarrow> [] | c # rest \<Rightarrow> if c = CHR ''*'' then ''.*'' @ rest else c # rest)"

definition regex_source :: "string \<Rightarrow> string" where
  "regex_source topics = ''^'' @ replace_leading (replace_wildcards topics) @ ''$''"

subsection \<open>\<^verbatim>\<open>new RegExp(source)\<close>\<close>

definition syntax_character :: "char \<Rightarrow> bool" where
  "syntax_character c = (c \<in> set ''^$.*+?()[]{}|'' \<or> c = backslash)"

definition token_of :: "char \<Rightarrow> token option" where
  "token_of c =
     (if c = CHR ''.'' then Some (TAtom AnyChar)
      else if c = CHR ''*'' then Some TStar
      else if c = CHR ''+'' then Some TPlus
      else if c = CHR ''?'' then Some TQuest
      else if c = CHR ''|'' then Some TBar
      else if c = CHR ''^'' then Some TCaret
      else if c = CHR ''$'' then Some TDollar
      else if c \<in> set ''()[]{}'' then None
      else Some (TAtom (Lit c)))"

text \<open>A backslash followed by a syntax character (or the slash) is that character, literally.\<close>

fun tokenize :: "string \<Rightarrow> token list option" where
  "tokenize [] = Some []"
| "tokenize [c] = (if c = backslash then None else map_option (\<lambda>t. [t]) (token_of c))"
| "tokenize (c # d # rest) =
     (if c = backslash
      then (if syntax_character d \<or> d = CHR ''/''
            then map_option ((#) (TAtom (Lit d))) (tokenize rest)
            else None)
      else (case token_of c of
              None \<Rightarrow> None
            | Some t \<Rightarrow> map_option ((#) t) (tokenize (d # rest))))"

definition add_term :: "re_term \<Rightarrow> pattern \<Rightarrow> pattern" where
  "add_term t p = (case p of [] \<Rightarrow> [[t]] | alt # alts \<Rightarrow> (t # alt) # alts)"

text \<open>A quantifier is accepted only right after an atom, and only one of them.\<close>

fun parse_tokens :: "token list \<Rightarrow> pattern option" where
  "parse_tokens [] = Some [[]]"
| "parse_tokens (TBar # ts) = map_option ((#) []) (parse_tokens ts)"
| "parse_tokens (TCaret # ts) = map_option (add_term AssertStart) (parse_tokens ts)"
| "parse_tokens (TDollar # ts) = map_option (add_term AssertEnd) (parse_tokens ts)"
| "parse_tokens (TAtom a # TStar # ts) = map_option (add_term (Atom a ZeroOrMore)) (parse_tokens ts)"
| "parse_tokens (TAtom a # TPlus # ts) = map_option (add_term (Atom a OneOrMore)) (parse_tokens ts)"
| "parse_tokens (TAtom a # TQuest # ts) = map_option (add_term (Atom a ZeroOrOne)) (parse_tokens ts)"
| "parse_tokens (TAtom a # ts) = map_option (add_term (Atom a Once)) (parse_tokens ts)"
| "parse_tokens (TStar # ts) = None"
| "parse_tokens (TPlus # ts) = None"
| "parse_tokens (TQuest # ts) = None"

definition RegExp_new :: "string \<Rightarrow> pattern option" where
  "RegExp_new source = (case tokenize source of None \<Rightarrow> None | Some ts \<Rightarrow> parse_tokens ts)"

subsection \<open>\<^verbatim>\<open>RegExp.prototype.test\<close>\<close>

text \<open>
  A matcher state is the rest of the input together with the fact that nothing has
  been consumed yet (\<^verbatim>\<open>^\<close> holds exactly there, \<^verbatim>\<open>$\<close> exactly where the rest is
  empty: no \<^verbatim>\<open>m\<close> flag). A term maps a state to the states it can end in; as
  \<^verbatim>\<open>test\<close> only asks whether some way of matching succeeds, greediness does not matter.
  \<^verbatim>\<open>.\<close> matches every character but a line terminator.
\<close>

definition atom_matches :: "re_atom \<Rightarrow> char \<Rightarrow> bool" where
  "atom_matches a c = (case a of Lit d \<Rightarrow> c = d | AnyChar \<Rightarrow> c \<noteq> CHR 0x0A \<and> c \<noteq> CHR 0x0D)"

fun star_ends :: "re_atom \<Rightarrow> string \<Rightarrow> string list" where
  "star_ends a [] = [[]]"
| "star_ends a (c # cs) = (c # cs) # (if atom_matches a c then star_ends a cs else [])"

definition once_ends :: "re_atom \<Rightarrow> string \<Rightarrow> string list" where
  "once_ends a s = (case s of [] \<Rightarrow> [] | c # cs \<Rightarrow> if atom_matches a c then [cs] else [])"

definition plus_ends :: "re_atom \<Rightarrow> string \<Rightarrow> string list" where
  "plus_ends a s = (case s of [] \<Rightarrow> [] | c # cs \<Rightarrow> if atom_matches a c then star_ends a cs else [])"

fun term_ends :: "re_term \<Rightarrow> bool \<times> string \<Rightarrow> (bool \<times> string) list" where
  "term_ends AssertStart (at_start, s) = (if at_start then [(at_start, s)] else [])"
| "term_ends AssertEnd (at_start, s) = (if s = [] then [(at_start, s)] else [])"
| "term_ends (Atom a Once) (at_start, s) = map (Pair False) (once_ends a s)"
| "term_ends (Atom a ZeroOrMore) (at_start, s) = (at_start, s) # map (Pair False) (plus_ends a s)"
| "term_ends (Atom a OneOrMore) (at_start, s) = map (Pair False) (plus_ends a s)"
| "term_ends (Atom a ZeroOrOne) (at_start, s) = (at_start, s) # map (Pair False) (once_ends a s)"

fun alt_ends :: "alternative \<Rightarrow> bool \<times> string \<Rightarrow> (bool \<times> string) list" where
  "alt_ends [] st = [st]"
| "alt_ends (t # ts) st = concat (map (\<lambda>st'. alt_ends ts st') (term_ends t st))"

definition match_at :: "pattern \<Rightarrow> bool \<times> string \<Rightarrow> bool" where
  "match_at p st = list_ex (\<lambda>alt. alt_ends alt st \<noteq> []) p"

text \<open>\<^verbatim>\<open>test\<close> tries every start position from the left (no \<^verbatim>\<open>g\<close> or \<^verbatim>\<open>y\<close> flag).\<close>

fun search :: "pattern \<Rightarrow> bool \<Rightarrow> string \<Rightarrow> bool" where
  "search p at_start [] = match_at p (at_start, [])"
| "search p at_start (c # cs) = (match_at p (at_start, c # cs) \<or> search p False cs)"

definition RegExp_test :: "pattern \<Rightarrow> string \<Rightarrow> bool" where
  "RegExp_test p s = search p True s"

subsection \<open>The registry object\<close>

text \<open>
  \<^verbatim>\<open>for (var topic in namespace)\<close> enumerates the own keys of the registry in the
  order of ECMAScript's OrdinaryOwnPropertyKeys: the keys that are array indices
  (canonical decimal numerals below \<open>2^32 - 1\<close>) in ascending numeric order first, then
  every other key in creation order.
\<close>

definition index_value :: "string \<Rightarrow> nat" where
  "index_value s = foldl (\<lambda>n c. 10 * n + (of_char c - 48)) 0 s"

definition is_array_index :: "string \<Rightarrow> bool" where
  "is_array_index s =
     (s \<noteq> [] \<and> list_all (\<lambda>c. c \<in> set ''0123456789'') s
      \<and> (if hd s = CHR ''0'' then length s = 1 else True) \<and> index_value s < 4294967295)"

definition for_in_keys :: "registry \<Rightarrow> string list" where
  "for_in_keys namespace =
     sort_key index_value (filter is_array_index (map fst namespace))
     @ filter (\<lambda>k. \<not> is_array_index k) (map fst namespace)"

text \<open>Writing an existing property, and \<^verbatim>\<open>delete\<close>.\<close>

definition set_entry :: "string \<Rightarrow> fnref list \<Rightarrow> registry \<Rightarrow> registry" where
  "set_entry topic subscribers namespace =
     map (\<lambda>(k, v). if k = topic then (k, subscribers) else (k, v)) namespace"

definition delete_entry :: "string \<Rightarrow> registry \<Rightarrow> registry" where
  "delete_entry topic namespace = filter (\<lambda>(k, v). k \<noteq> topic) namespace"

text \<open>\<^verbatim>\<open>Array.prototype.indexOf\<close> (\<open>-1\<close> when absent) and \<^verbatim>\<open>splice(i, 1)\<close>.\<close>

fun indexOf :: "fnref list \<Rightarrow> jsval \<Rightarrow> int" where
  "indexOf [] v = - 1"
| "indexOf (f # fs) v =
     (if v = VFun f then 0
      else (let i = indexOf fs v in if i < 0 then - 1 else i + 1))"

definition splice1 :: "fnref list \<Rightarrow> int \<Rightarrow> fnref list" where
  "splice1 xs i = take (nat i) xs @ drop (nat i + 1) xs"

subsection \<open>\<^verbatim>\<open>subscribe\<close>\<close>

definition subscribe :: "ctx \<Rightarrow> jsval \<Rightarrow> jsval \<Rightarrow> ctx \<times> exn option" where
  "subscribe this topic subscriber =
     (case topic of
        VStr t \<Rightarrow>
          (case subscriber of
             VFun f \<Rightarrow>
               (let namespace = (case pubsub this of None \<Rightarrow> [] | Some ns \<Rightarrow> ns);
                    namespace1 = (case map_of namespace t of
                                    None \<Rightarrow> namespace @ [(t, [])]
                                  | Some subscribers \<Rightarrow> namespace);
                    subscribers = (case map_of namespace1 t of None \<Rightarrow> [] | Some subs \<Rightarrow> subs);
                    subscriberNotFound = (indexOf subscribers subscriber < 0)
                in (this\<lparr>pubsub := Some (if subscriberNotFound
                                           then set_entry t (subscribers @ [f]) namespace1
                                           else namespace1)\<rparr>, None))
           | _ \<Rightarrow> (this, Some (TypeError ''Expected subscriber to be a function.'')))
      | _ \<Rightarrow> (this, Some (TypeError ''Expected topic to be a string.'')))"

subsection \<open>\<^verbatim>\<open>forEachTopic\<close>\<close>

definition topics_message :: string where
  \<open>topics_message = ''Expected topic to be a string (with optional "*" wildcards) or a regex.''\<close>

text \<open>Lines 183 to 188: make sure \<^verbatim>\<open>topics\<close> is a regex.\<close>

definition to_regex :: "jsval \<Rightarrow> exn + pattern" where
  "to_regex topics =
     (case topics of
        VRegExp re \<Rightarrow> Inr re
      | VStr s \<Rightarrow>
          (case RegExp_new (regex_source s) of
             None \<Rightarrow> Inl (PatternNotModelled (regex_source s))
           | Some re \<Rightarrow> Inr re)
      | _ \<Rightarrow> Inl (TypeError topics_message))"

text \<open>
  The loop of lines 190 to 194 over the keys enumerated when it starts. The callback
  may change the registry (\<^verbatim>\<open>unsubscribe\<close> does); a key is passed to it only if the
  pattern accepts it and the registry still holds an entry for it.
\<close>

fun for_in :: "string list \<Rightarrow> pattern \<Rightarrow> 'a callback \<Rightarrow> registry \<times> 'a \<Rightarrow> (registry \<times> 'a) \<times> exn option" where
  "for_in [] topics fn st = (st, None)"
| "for_in (topic # rest) topics fn st =
     (if RegExp_test topics topic
      then (case map_of (fst st) topic of
              None \<Rightarrow> for_in rest topics fn st
            | Some subscribers \<Rightarrow>
                (case fn subscribers topic st of
                   (st', None) \<Rightarrow> for_in rest topics fn st'
                 | (st', Some e) \<Rightarrow> (st', Some e)))
      else for_in rest topics fn st)"

definition forEachTopic :: "ctx \<Rightarrow> jsval \<Rightarrow> 'a callback \<Rightarrow> 'a \<Rightarrow> (ctx \<times> 'a) \<times> exn option" where
  "forEachTopic this topics fn a =
     (case pubsub this of
        None \<Rightarrow> ((this, a), None)
      | Some namespace \<Rightarrow>
          (case to_regex topics of
             Inl e \<Rightarrow> ((this, a), Some e)
           | Inr re \<Rightarrow>
               (case for_in (for_in_keys namespace) re fn (namespace, a) of
                  ((namespace', a'), r) \<Rightarrow> ((this\<lparr>pubsub := Some namespace'\<rparr>, a'), r))))"

subsection \<open>\<^verbatim>\<open>unsubscribe\<close>\<close>

definition unsubscribe_fn :: "jsval \<Rightarrow> unit callback" where
  "unsubscribe_fn subscriber subscribers topic st =
     (if truthy subscriber
      then (let subscriberIndex = indexOf subscribers subscriber;
                subscriberFound = (subscriberIndex \<ge> 0)
            in if subscriberFound
               then ((set_entry topic (splice1 subscribers subscriberIndex) (fst st), snd st), None)
               else (st, None))
      else ((delete_entry topic (fst st), snd st), None))"

definition unsubscribe :: "ctx \<Rightarrow> jsval \<Rightarrow> jsval \<Rightarrow> ctx \<times> exn option" where
  "unsubscribe this topics subscriber =
     (case forEachTopic this topics (unsubscribe_fn subscriber) () of
        ((this', u), r) \<Rightarrow> (this', r))"

subsection \<open>\<^verbatim>\<open>publish\<close>\<close>

text \<open>
  The state of the dispatch is the array \<^verbatim>\<open>results\<close> and the sequence of subscribers
  called so far. The inner \<^verbatim>\<open>for\<close> loop calls the subscribers of one topic in array
  order; a throw leaves the loop with what has been called up to then.
\<close>

fun call_subscribers ::
  "behaviour \<Rightarrow> ctx \<Rightarrow> jsval \<Rightarrow> fnref list \<Rightarrow> jsval list \<times> fnref list
     \<Rightarrow> (jsval list \<times> fnref list) \<times> exn option" where
  "call_subscribers env this message [] st = (st, None)"
| "call_subscribers env this message (f # fs) (results, called) =
     (case env f this message of
        Inl v \<Rightarrow> ((results, called @ [f]), Some (Thrown v))
      | Inr y \<Rightarrow> call_subscribers env this message fs (results @ [y], called @ [f]))"

definition publish_fn :: "behaviour \<Rightarrow> ctx \<Rightarrow> jsval \<Rightarrow> (jsval list \<times> fnref list) callback" where
  "publish_fn env this message subscribers topic st =
     (case call_subscribers env this message subscribers (snd st) of
        (st', r) \<Rightarrow> ((fst st, st'), r))"

text \<open>
  \<^verbatim>\<open>publish\<close> returns the array of results, or raises; the second component is the
  sequence of subscribers it has called, in call order.
\<close>

definition publish :: "behaviour \<Rightarrow> ctx \<Rightarrow> jsval \<Rightarrow> jsval \<Rightarrow> (exn + jsval list) \<times> fnref list" where
  "publish env this topics message =
     (case forEachTopic this topics (publish_fn env this message) ([], []) of
        ((this', (results, called)), None) \<Rightarrow> (Inr results, called)
      | ((this', (results, called)), Some e) \<Rightarrow> (Inl e, called))"

section \<open>Notions used to state the properties\<close>

text \<open>The registry of a context, empty while the property \<^verbatim>\<open>_pubsub\<close> does not exist.\<close>

definition registry_of :: "ctx \<Rightarrow> registry" where
  "registry_of this = (case pubsub this of None \<Rightarrow> [] | Some namespace \<Rightarrow> namespace)"

definition subscribers_of :: "registry \<Rightarrow> string \<Rightarrow> fnref list" where
  "subscribers_of namespace topic =
     (case map_of namespace topic of None \<Rightarrow> [] | Some subscribers \<Rightarrow> subscribers)"

text \<open>
  The order in which a dispatch visits the subscribers: the topics the pattern accepts,
  in the enumeration order of the registry, and under each topic its subscribers in
  array order.
\<close>

definition visit_order :: "registry \<Rightarrow> pattern \<Rightarrow> fnref list" where
  "visit_order namespace re =
     concat (map (subscribers_of namespace) (filter (RegExp_test re) (for_in_keys namespace)))"

text \<open>
  A registry as the three methods build it: no key twice (it is an object), and no
  subscriber twice under one topic.
\<close>

definition wf_registry :: "registry \<Rightarrow> bool" where
  "wf_registry namespace =
     (distinct (map fst namespace) \<and> list_all (\<lambda>(topic, subscribers). distinct subscribers) namespace)"

definition wf_ctx :: "ctx \<Rightarrow> bool" where
  "wf_ctx this = wf_registry (registry_of this)"

text \<open>A sequence of \<^verbatim>\<open>subscribe\<close> calls on one context; a call that raises changes nothing.\<close>

fun subscribe_all :: "ctx \<Rightarrow> (jsval \<times> jsval) list \<Rightarrow> ctx" where
  "subscribe_all this [] = this"
| "subscribe_all this ((topic, subscriber) # calls) =
     subscribe_all (fst (subscribe this topic subscriber)) calls"

text \<open>
  The topic key that a specification denotes when it is made of ordinary characters
  (no syntax character of the pattern language) and of backslash-asterisk pairs only:
  each pair stands for one asterisk. \<open>None\<close> for every other specification.
\<close>

fun literal_of :: "string \<Rightarrow> string option" where
  "literal_of [] = Some []"
| "literal_of [c] = (if syntax_character c then None else Some [c])"
| "literal_of (c # d # rest) =
     (if c = backslash
      then (if d = CHR ''*'' then map_option ((#) (CHR ''*'')) (literal_of rest) else None)
      else if syntax_character c then None
      else map_option ((#) c) (literal_of (d # rest)))"

text \<open>The pattern \<^verbatim>\<open>^key$\<close> in which every character of the key is a literal.\<close>

definition literal_pattern :: "string \<Rightarrow> pattern" where
  "literal_pattern key = [AssertStart # map (\<lambda>c. Atom (Lit c) Once) key @ [AssertEnd]]"

text \<open>
  Fixtures for the concrete instances: a context without registry; subscribers that
  return ten times their reference; subscribers of which number 13 returns a promise;
  subscribers of which number 13 throws.
\<close>

definition no_registry :: ctx where
  "no_registry = \<lparr>pubsub = None\<rparr>"

definition tens :: behaviour where
  "tens f this message = Inr (VNum (10 * int f))"

definition promises :: behaviour where
  "promises f this message = Inr (if f = 13 then VPromise 7 else VNum (10 * int f))"

definition second_throws :: behaviour where
  "second_throws f this message = (if f = 13 then Inl (VStr ''boom'') else Inr (VNum (10 * int f)))"

section \<open>Lemmas\<close>

text \<open>The defining equations by which concrete calls are evaluated.\<close>

lemmas regex_eval = to_regex_def RegExp_new_def regex_source_def replace_leading_def token_of_def
  syntax_character_def add_term_def RegExp_test_def match_at_def once_ends_def plus_ends_def atom_matches_def

lemmas registry_eval = for_in_keys_def is_array_index_def index_value_def subscribers_of_def visit_order_def
  set_entry_def delete_entry_def splice1_def

lemmas method_eval = subscribe_def unsubscribe_def unsubscribe_fn_def publish_def publish_fn_def forEachTopic_def
  truthy_def Let_def

subsection \<open>Arrays and the registry\<close>

lemma indexOf_negative_iff: "indexOf fs (VFun f) < 0 \<longleftrightarrow> f \<notin> set fs"
  by (induction fs) (auto simp: Let_def)

lemma splice1_Cons: "0 \<le> i \<Longrightarrow> splice1 (g # fs) (i + 1) = g # splice1 fs i"
  by (simp add: splice1_def nat_add_distrib)

lemma splice1_indexOf: "f \<in> set fs \<Longrightarrow> splice1 fs (indexOf fs (VFun f)) = remove1 f fs"
proof (induction fs)
  case Nil
  then show ?case by simp
next
  case (Cons g fs)
  show ?case
  proof (cases "g = f")
    case True
    then show ?thesis by (simp add: splice1_def)
  next
    case False
    with Cons.prems have mem: "f \<in> set fs" by simp
    then have nonneg: "0 \<le> indexOf fs (VFun f)"
      using indexOf_negative_iff [of fs f] by simp
    from False have "indexOf (g # fs) (VFun f) = indexOf fs (VFun f) + 1"
      using nonneg by (simp add: Let_def)
    with False nonneg Cons.IH [OF mem] show ?thesis
      by (simp add: splice1_Cons)
  qed
qed

lemma map_fst_set_entry: "map fst (set_entry k v ns) = map fst ns"
  by (induction ns) (auto simp: set_entry_def)

lemma set_for_in_keys: "set (for_in_keys ns) = fst ` set ns"
  by (auto simp: for_in_keys_def)

lemma distinct_for_in_keys: "distinct (map fst ns) \<Longrightarrow> distinct (for_in_keys ns)"
  by (auto simp: for_in_keys_def)

lemma for_in_keys_insertion_order:
  "list_all (\<lambda>k. \<not> is_array_index k) (map fst ns) \<Longrightarrow> for_in_keys ns = map fst ns"
  by (simp add: for_in_keys_def list_all_iff filter_id_conv filter_empty_conv)

subsection \<open>The loop of \<^verbatim>\<open>unsubscribe\<close>\<close>

lemma unsubscribe_fn_function:
  assumes "distinct (map fst ns)" "map_of ns k = Some subs"
  shows "unsubscribe_fn (VFun f) subs k (ns, u) =
          ((map (\<lambda>(k', s). (k', if k' = k then remove1 f s else s)) ns, u), None)"
proof -
  have same: "s = subs" if "(k, s) \<in> set ns" for s
    using assms that by simp
  have upd: "set_entry k (remove1 f subs) ns = map (\<lambda>(k', s). (k', if k' = k then remove1 f s else s)) ns"
    unfolding set_entry_def using same by (intro map_cong) auto
  show ?thesis
  proof (cases "f \<in> set subs")
    case True
    then show ?thesis
      using upd indexOf_negative_iff [of subs f]
      by (simp add: unsubscribe_fn_def truthy_def Let_def splice1_indexOf)
  next
    case False
    then have "remove1 f subs = subs" by (simp add: remove1_idem)
    then have "map (\<lambda>(k', s). (k', if k' = k then remove1 f s else s)) ns = ns"
      using same by (intro map_idI) auto
    with False show ?thesis
      using indexOf_negative_iff [of subs f]
      by (simp add: unsubscribe_fn_def truthy_def Let_def)
  qed
qed

lemma for_in_unsubscribe_function:
  "distinct (map fst ns) \<Longrightarrow> distinct ks \<Longrightarrow>
   for_in ks re (unsubscribe_fn (VFun f)) (ns, u) =
     ((map (\<lambda>(k, s). (k, if k \<in> set ks \<and> RegExp_test re k then remove1 f s else s)) ns, u), None)"
proof (induction ks arbitrary: ns)
  case Nil
  then show ?case by (simp add: case_prod_unfold)
next
  case (Cons k ks)
  let ?goal = "\<lambda>ns. map (\<lambda>(k', s). (k', if k' \<in> set (k # ks) \<and> RegExp_test re k' then remove1 f s else s)) ns"
  from Cons.prems have dks: "distinct ks" and knot: "k \<notin> set ks" by simp_all
  show ?case
  proof (cases "RegExp_test re k")
    case False
    have "?goal ns = map (\<lambda>(k', s). (k', if k' \<in> set ks \<and> RegExp_test re k' then remove1 f s else s)) ns"
      using False by (intro map_cong) auto
    with False Cons.IH [OF Cons.prems(1) dks] show ?thesis by simp
  next
    case True
    show ?thesis
    proof (cases "map_of ns k")
      case None
      then have "k \<notin> fst ` set ns" by (simp add: map_of_eq_None_iff)
      then have "?goal ns = map (\<lambda>(k', s). (k', if k' \<in> set ks \<and> RegExp_test re k' then remove1 f s else s)) ns"
        by (intro map_cong) force+
      with True None Cons.IH [OF Cons.prems(1) dks] show ?thesis by simp
    next
      case (Some subs)
      let ?ns1 = "map (\<lambda>(k', s). (k', if k' = k then remove1 f s else s)) ns"
      have d1: "distinct (map fst ?ns1)"
        using Cons.prems(1) by (simp add: case_prod_unfold comp_def)
      have "map (\<lambda>(k', s). (k', if k' \<in> set ks \<and> RegExp_test re k' then remove1 f s else s)) ?ns1 = ?goal ns"
        using knot True by (auto simp: case_prod_unfold)
      with True Some Cons.IH [OF d1 dks] unsubscribe_fn_function [OF Cons.prems(1) Some, of f u]
      show ?thesis by simp
    qed
  qed
qed

lemma unsubscribe_fn_falsy:
  "\<not> truthy v \<Longrightarrow> unsubscribe_fn v subs k st = ((delete_entry k (fst st), snd st), None)"
  by (simp add: unsubscribe_fn_def)

lemma for_in_unsubscribe_falsy:
  "\<not> truthy v \<Longrightarrow>
   for_in ks re (unsubscribe_fn v) (ns, u) =
     ((filter (\<lambda>(k, s). \<not> (k \<in> set ks \<and> RegExp_test re k)) ns, u), None)"
proof (induction ks arbitrary: ns)
  case Nil
  then show ?case by (simp add: case_prod_unfold)
next
  case (Cons k ks)
  show ?case
  proof (cases "RegExp_test re k \<and> map_of ns k \<noteq> None")
    case True
    then obtain subs where some: "map_of ns k = Some subs" by auto
    have "filter (\<lambda>(k', s). \<not> (k' \<in> set ks \<and> RegExp_test re k')) (delete_entry k ns)
          = filter (\<lambda>(k', s). \<not> (k' \<in> set (k # ks) \<and> RegExp_test re k')) ns"
      using True by (auto simp: delete_entry_def case_prod_unfold intro: filter_cong)
    with True some Cons.IH [OF Cons.prems, of "delete_entry k ns"] Cons.prems
    show ?thesis by (simp add: unsubscribe_fn_falsy)
  next
    case False
    have "filter (\<lambda>(k', s). \<not> (k' \<in> set ks \<and> RegExp_test re k')) ns
          = filter (\<lambda>(k', s). \<not> (k' \<in> set (k # ks) \<and> RegExp_test re k')) ns"
    proof (rule filter_cong [OF refl])
      fix x assume "x \<in> set ns"
      then have "fst x = k \<Longrightarrow> map_of ns k \<noteq> None"
        by (metis map_of_eq_None_iff image_eqI)
      with False show "(case x of (k', s) \<Rightarrow> \<not> (k' \<in> set ks \<and> RegExp_test re k'))
          = (case x of (k', s) \<Rightarrow> \<not> (k' \<in> set (k # ks) \<and> RegExp_test re k'))"
        by (auto simp: case_prod_unfold)
    qed
    with False Cons.IH [OF Cons.prems, of ns] show ?thesis
      by (auto split: option.splits)
  qed
qed

lemma unsubscribe_function:
  assumes "pubsub this = Some ns" "distinct (map fst ns)" "to_regex topics = Inr re"
  shows "unsubscribe this topics (VFun f) =
           (this\<lparr>pubsub := Some (map (\<lambda>(k, s). (k, if RegExp_test re k then remove1 f s else s)) ns)\<rparr>, None)"
proof -
  have "map (\<lambda>(k, s). (k, if k \<in> set (for_in_keys ns) \<and> RegExp_test re k then remove1 f s else s)) ns
        = map (\<lambda>(k, s). (k, if RegExp_test re k then remove1 f s else s)) ns"
    by (intro map_cong) (force simp: set_for_in_keys)+
  then show ?thesis
    using assms for_in_unsubscribe_function [OF assms(2) distinct_for_in_keys [OF assms(2)], of re f "()"]
    by (simp add: unsubscribe_def forEachTopic_def)
qed

lemma unsubscribe_falsy:
  assumes "pubsub this = Some ns" "to_regex topics = Inr re" "\<not> truthy v"
  shows "unsubscribe this topics v =
           (this\<lparr>pubsub := Some (filter (\<lambda>(k, s). \<not> RegExp_test re k) ns)\<rparr>, None)"
proof -
  have "filter (\<lambda>(k, s). \<not> (k \<in> set (for_in_keys ns) \<and> RegExp_test re k)) ns
        = filter (\<lambda>(k, s). \<not> RegExp_test re k) ns"
    by (intro filter_cong) (force simp: set_for_in_keys)+
  then show ?thesis
    using assms for_in_unsubscribe_falsy [OF assms(3), of "for_in_keys ns" re ns "()"]
    by (simp add: unsubscribe_def forEachTopic_def)
qed

subsection \<open>The loops of \<^verbatim>\<open>publish\<close>\<close>

lemma call_subscribers_append:
  "call_subscribers env this m (xs @ ys) st =
     (case call_subscribers env this m xs st of
        (st', None) \<Rightarrow> call_subscribers env this m ys st'
      | (st', Some e) \<Rightarrow> (st', Some e))"
proof (induction xs arbitrary: st)
  case Nil
  then show ?case by simp
next
  case (Cons x xs)
  obtain rs cs where st: "st = (rs, cs)" by (cases st)
  show ?case unfolding st using Cons.IH by (simp split: sum.splits)
qed

lemma for_in_publish:
  "for_in ks re (publish_fn env this m) (ns, st) =
     (case call_subscribers env this m
             (concat (map (subscribers_of ns) (filter (RegExp_test re) ks))) st of
        (st', r) \<Rightarrow> ((ns, st'), r))"
proof (induction ks arbitrary: st)
  case Nil
  then show ?case by simp
next
  case (Cons k ks)
  show ?case
  proof (cases "RegExp_test re k")
    case False
    with Cons.IH show ?thesis by simp
  next
    case True
    show ?thesis
    proof (cases "map_of ns k")
      case None
      with True Cons.IH show ?thesis by (simp add: subscribers_of_def)
    next
      case (Some subs)
      obtain st1 r1 where c1: "call_subscribers env this m subs st = (st1, r1)"
        by (cases "call_subscribers env this m subs st")
      show ?thesis
      proof (cases r1)
        case None
        with True Some c1 Cons.IH [of st1] show ?thesis
          by (simp add: subscribers_of_def publish_fn_def call_subscribers_append)
      next
        case (Some e)
        with True \<open>map_of ns k = Some subs\<close> c1 show ?thesis
          by (simp add: subscribers_of_def publish_fn_def call_subscribers_append)
      qed
    qed
  qed
qed

lemma publish_run:
  assumes "pubsub this = Some ns" "to_regex topics = Inr re"
  shows "publish env this topics m =
           (case call_subscribers env this m (visit_order ns re) ([], []) of
              ((results, called), None) \<Rightarrow> (Inr results, called)
            | ((results, called), Some e) \<Rightarrow> (Inl e, called))"
  using assms
  by (simp add: publish_def forEachTopic_def for_in_publish visit_order_def split: prod.splits option.splits)

lemma call_subscribers_all_return:
  "\<forall>f \<in> set fs. \<exists>y. env f this m = Inr y \<Longrightarrow>
   \<exists>ys. call_subscribers env this m fs (rs, cs) = ((rs @ ys, cs @ fs), None)
        \<and> map Inr ys = map (\<lambda>f. env f this m) fs"
proof (induction fs arbitrary: rs cs)
  case Nil
  then show ?case by simp
next
  case (Cons f fs)
  from Cons.prems obtain y where y: "env f this m = Inr y" by auto
  from Cons.prems have "\<forall>f \<in> set fs. \<exists>y. env f this m = Inr y" by simp
  from Cons.IH [OF this, of "rs @ [y]" "cs @ [f]"]
  obtain ys where "call_subscribers env this m fs (rs @ [y], cs @ [f]) = (((rs @ [y]) @ ys, (cs @ [f]) @ fs), None)"
    and "map Inr ys = map (\<lambda>f. env f this m) fs" by blast
  with y show ?case by (intro exI [of _ "y # ys"]) simp
qed

lemma call_subscribers_throw:
  "i < length fs \<Longrightarrow> env (fs ! i) this m = Inl v \<Longrightarrow>
   \<forall>j < i. \<exists>y. env (fs ! j) this m = Inr y \<Longrightarrow>
   \<exists>rs'. call_subscribers env this m fs (rs, cs) = ((rs', cs @ take (Suc i) fs), Some (Thrown v))"
proof (induction fs arbitrary: i rs cs)
  case Nil
  then show ?case by simp
next
  case (Cons f fs)
  show ?case
  proof (cases i)
    case 0
    with Cons.prems show ?thesis by simp
  next
    case (Suc i')
    with Cons.prems have lt: "i' < length fs" and thr: "env (fs ! i') this m = Inl v" by simp_all
    from Cons.prems(3) Suc have "\<exists>y. env ((f # fs) ! 0) this m = Inr y" by blast
    then obtain y where y: "env f this m = Inr y" by auto
    have "\<forall>j < i'. \<exists>y. env (fs ! j) this m = Inr y"
    proof (intro allI impI)
      fix j assume "j < i'"
      then have "Suc j < i" using Suc by simp
      with Cons.prems(3) have "\<exists>y. env ((f # fs) ! Suc j) this m = Inr y" by blast
      then show "\<exists>y. env (fs ! j) this m = Inr y" by simp
    qed
    from Cons.IH [OF lt thr this, of "rs @ [y]" "cs @ [f]"] y Suc show ?thesis by simp
  qed
qed

subsection \<open>Specifications that denote one literal key\<close>

lemma literal_of_head: "literal_of (c # s) = Some k \<Longrightarrow> c \<noteq> CHR ''*''"
  by (cases s) (auto simp: syntax_character_def split: if_splits)

lemma replace_wildcards_literal: "literal_of s = Some k \<Longrightarrow> replace_wildcards s = s"
proof (induction s arbitrary: k rule: literal_of.induct)
  case 1
  then show ?case by simp
next
  case (2 c)
  then show ?case by simp
next
  case (3 c d rest)
  show ?case
  proof (cases "c = backslash")
    case True
    with "3.prems" have d: "d = CHR ''*''" and "\<exists>k'. literal_of rest = Some k'"
      by (auto split: if_splits)
    then obtain k' where k': "literal_of rest = Some k'" by blast
    from "3.IH"(1) [OF True d k'] have rest: "replace_wildcards rest = rest" .
    have "replace_wildcards (d # rest) = d # rest"
    proof (cases rest)
      case Nil
      then show ?thesis by simp
    next
      case (Cons e r)
      with k' have "e \<noteq> CHR ''*''" using literal_of_head by blast
      with Cons rest show ?thesis by simp
    qed
    with True show ?thesis by simp
  next
    case False
    with "3.prems" have nsc: "\<not> syntax_character c" and "\<exists>k'. literal_of (d # rest) = Some k'"
      by (auto split: if_splits)
    then obtain k' where k': "literal_of (d # rest) = Some k'" by blast
    then have "d \<noteq> CHR ''*''" using literal_of_head by blast
    with False "3.IH"(2) [OF False nsc k'] show ?thesis by simp
  qed
qed

lemma replace_leading_literal: "literal_of s = Some k \<Longrightarrow> replace_leading s = s"
  by (cases s) (auto simp: replace_leading_def dest: literal_of_head)

lemma token_of_ordinary: "\<not> syntax_character c \<Longrightarrow> token_of c = Some (TAtom (Lit c))"
  by (simp add: syntax_character_def token_of_def)

lemma tokenize_literal:
  "literal_of s = Some k \<Longrightarrow> tokenize (s @ ''$'') = Some (map (\<lambda>c. TAtom (Lit c)) k @ [TDollar])"
proof (induction s arbitrary: k rule: literal_of.induct)
  case 1
  then show ?case by (simp add: token_of_def)
next
  case (2 c)
  then have nsc: "\<not> syntax_character c" and k: "k = [c]" by (auto split: if_splits)
  then have "c \<noteq> backslash" by (simp add: syntax_character_def)
  with nsc k show ?case by (simp add: token_of_ordinary) (simp add: token_of_def)
next
  case (3 c d rest)
  show ?case
  proof (cases "c = backslash")
    case True
    with "3.prems" obtain k' where d: "d = CHR ''*''" and k': "literal_of rest = Some k'"
      and k: "k = CHR ''*'' # k'"
      by (auto split: if_splits)
    from "3.IH"(1) [OF True d k'] True d k show ?thesis by (simp add: syntax_character_def)
  next
    case False
    with "3.prems" obtain k' where nsc: "\<not> syntax_character c" and k': "literal_of (d # rest) = Some k'"
      and k: "k = c # k'"
      by (auto split: if_splits)
    from "3.IH"(2) [OF False nsc k'] False nsc k show ?thesis by (simp add: token_of_ordinary)
  qed
qed

lemma parse_tokens_literal:
  "parse_tokens (map (\<lambda>c. TAtom (Lit c)) k @ [TDollar]) = Some [map (\<lambda>c. Atom (Lit c) Once) k @ [AssertEnd]]"
proof (induction k)
  case Nil
  then show ?case by (simp add: add_term_def)
next
  case (Cons c k)
  then show ?case by (cases k) (simp_all add: add_term_def)
qed

lemma RegExp_new_literal:
  assumes "literal_of s = Some k"
  shows "RegExp_new (regex_source s) = Some (literal_pattern k)"
proof -
  have src: "regex_source s = CHR ''^'' # (s @ ''$'')"
    using assms by (simp add: regex_source_def replace_wildcards_literal replace_leading_literal)
  obtain e r where er: "s @ ''$'' = e # r" by (cases "s @ ''$''") auto
  have "tokenize (CHR ''^'' # e # r) = map_option ((#) TCaret) (tokenize (e # r))"
    by (simp add: token_of_def)
  then have "tokenize (regex_source s) = Some (TCaret # map (\<lambda>c. TAtom (Lit c)) k @ [TDollar])"
    using src er tokenize_literal [OF assms] by simp
  then show ?thesis
    by (simp add: RegExp_new_def parse_tokens_literal add_term_def literal_pattern_def)
qed

lemma alt_ends_literal:
  "alt_ends (map (\<lambda>c. Atom (Lit c) Once) k @ [AssertEnd]) (b, s) \<noteq> [] \<longleftrightarrow> s = k"
proof (induction k arbitrary: b s)
  case Nil
  then show ?case by simp
next
  case (Cons c k)
  then show ?case
    by (cases s) (auto simp: once_ends_def atom_matches_def)
qed

lemma search_anchored_False: "search [AssertStart # alt] False s = False"
  by (induction s) (simp_all add: match_at_def)

lemma RegExp_test_anchored:
  "RegExp_test [AssertStart # alt] s \<longleftrightarrow> alt_ends alt (True, s) \<noteq> []"
  by (cases s) (simp_all add: RegExp_test_def match_at_def search_anchored_False)

lemma RegExp_test_literal: "RegExp_test (literal_pattern k) key \<longleftrightarrow> key = k"
  by (simp add: literal_pattern_def RegExp_test_anchored alt_ends_literal)

lemma to_regex_literal: "literal_of s = Some k \<Longrightarrow> to_regex (VStr s) = Inr (literal_pattern k)"
  by (simp add: to_regex_def RegExp_new_literal)

subsection \<open>\<^verbatim>\<open>subscribe\<close> and the well-formed registry\<close>

lemma map_of_set_entry:
  "map_of (set_entry k v ns) k' = (if k' = k then map_option (\<lambda>_. v) (map_of ns k) else map_of ns k')"
  by (induction ns) (auto simp: set_entry_def)

lemma wf_registry_set_entry:
  "wf_registry ns \<Longrightarrow> distinct v \<Longrightarrow> wf_registry (set_entry k v ns)"
proof -
  assume wf: "wf_registry ns" and v: "distinct v"
  have "distinct (map fst (set_entry k v ns))"
    using wf by (simp add: map_fst_set_entry wf_registry_def)
  moreover have "list_all (\<lambda>(topic, subscribers). distinct subscribers) (set_entry k v ns)"
    using wf v by (auto simp: wf_registry_def list_all_iff set_entry_def split: if_splits)
  ultimately show ?thesis by (simp add: wf_registry_def)
qed

lemma subscribe_unfold:
  "subscribe this (VStr t) (VFun f) =
     (let namespace1 = (case map_of (registry_of this) t of
                          None \<Rightarrow> registry_of this @ [(t, [])]
                        | Some subscribers \<Rightarrow> registry_of this);
          subscribers = subscribers_of namespace1 t
      in (this\<lparr>pubsub := Some (if indexOf subscribers (VFun f) < 0
                                 then set_entry t (subscribers @ [f]) namespace1
                                 else namespace1)\<rparr>, None))"
  unfolding subscribe_def registry_of_def subscribers_of_def Let_def by simp

lemma subscribe_invalid:
  "\<not> (is_string topic \<and> is_function subscriber) \<Longrightarrow>
   fst (subscribe this topic subscriber) = this \<and> (\<exists>msg. snd (subscribe this topic subscriber) = Some (TypeError msg))"
  by (cases topic; cases subscriber) (simp_all add: subscribe_def is_string_def is_function_def)

lemma wf_registry_subscribers: "wf_registry ns \<Longrightarrow> distinct (subscribers_of ns k)"
proof (cases "map_of ns k")
  case None
  then show ?thesis by (simp add: subscribers_of_def)
next
  case (Some subs)
  assume "wf_registry ns"
  moreover from Some have "(k, subs) \<in> set ns" by (rule map_of_SomeD)
  ultimately show ?thesis using Some by (auto simp: wf_registry_def list_all_iff subscribers_of_def)
qed

lemma wf_registry_snoc:
  "wf_registry ns \<Longrightarrow> map_of ns t = None \<Longrightarrow> distinct v \<Longrightarrow> wf_registry (ns @ [(t, v)])"
  by (auto simp: wf_registry_def map_of_eq_None_iff)

lemma subscribe_valid:
  "\<exists>ns'. subscribe this (VStr t) (VFun f) = (this\<lparr>pubsub := Some ns'\<rparr>, None)
     \<and> subscribers_of ns' t =
         (if f \<in> set (subscribers_of (registry_of this) t) then subscribers_of (registry_of this) t
          else subscribers_of (registry_of this) t @ [f])
     \<and> (\<forall>k. k \<noteq> t \<longrightarrow> subscribers_of ns' k = subscribers_of (registry_of this) k)
     \<and> map_of ns' t \<noteq> None
     \<and> (wf_registry (registry_of this) \<longrightarrow> wf_registry ns')
     \<and> (f \<in> set (subscribers_of (registry_of this) t) \<and> pubsub this \<noteq> None \<longrightarrow> ns' = registry_of this)"
proof (cases "map_of (registry_of this) t")
  case None
  let ?ns = "registry_of this"
  have "subscribers_of (?ns @ [(t, [])]) t = []"
    using None by (simp add: subscribers_of_def map_add_def)
  then have sub: "subscribe this (VStr t) (VFun f) = (this\<lparr>pubsub := Some (set_entry t [f] (?ns @ [(t, [])]))\<rparr>, None)"
    using None by (simp add: subscribe_unfold)
  have wf: "wf_registry ?ns \<Longrightarrow> wf_registry (set_entry t [f] (?ns @ [(t, [])]))"
    using None by (intro wf_registry_set_entry wf_registry_snoc) simp_all
  show ?thesis
    using None sub wf
    by (intro exI [of _ "set_entry t [f] (?ns @ [(t, [])])"])
       (auto simp: subscribers_of_def map_of_set_entry map_add_def split: option.splits)
next
  case (Some subs)
  let ?ns = "registry_of this"
  from Some have regs: "pubsub this = Some ?ns"
    by (auto simp: registry_of_def split: option.splits)
  show ?thesis
  proof (cases "f \<in> set subs")
    case True
    then have "indexOf subs (VFun f) \<ge> 0" using indexOf_negative_iff [of subs f] by simp
    then have sub: "subscribe this (VStr t) (VFun f) = (this\<lparr>pubsub := Some ?ns\<rparr>, None)"
      using Some by (simp add: subscribe_unfold subscribers_of_def)
    show ?thesis using Some sub True
      by (intro exI [of _ ?ns]) (simp add: subscribers_of_def)
  next
    case False
    then have "indexOf subs (VFun f) < 0" using indexOf_negative_iff [of subs f] by simp
    then have sub: "subscribe this (VStr t) (VFun f) = (this\<lparr>pubsub := Some (set_entry t (subs @ [f]) ?ns)\<rparr>, None)"
      using Some by (simp add: subscribe_unfold subscribers_of_def)
    have wf: "wf_registry ?ns \<Longrightarrow> wf_registry (set_entry t (subs @ [f]) ?ns)"
      using False wf_registry_subscribers [of ?ns t] Some
      by (intro wf_registry_set_entry) (simp_all add: subscribers_of_def)
    show ?thesis using Some sub False wf
      by (intro exI [of _ "set_entry t (subs @ [f]) ?ns"])
         (auto simp: subscribers_of_def map_of_set_entry)
  qed
qed

lemma subscribe_wf: "wf_ctx this \<Longrightarrow> wf_ctx (fst (subscribe this topic subscriber))"
proof (cases "is_string topic \<and> is_function subscriber")
  case False
  assume "wf_ctx this"
  with False show ?thesis
    using subscribe_invalid [of topic subscriber this] by simp
next
  case True
  assume wf: "wf_ctx this"
  from True obtain t f where tf: "topic = VStr t" "subscriber = VFun f"
    by (auto simp: is_string_def is_function_def split: jsval.splits)
  from wf have "wf_registry (registry_of this)"
    by (simp add: wf_ctx_def)
  with subscribe_valid [of this t f] tf show ?thesis
    by (auto simp: wf_ctx_def registry_of_def)
qed

lemma subscribe_keeps:
  "f \<in> set (subscribers_of (registry_of this) t) \<Longrightarrow>
   f \<in> set (subscribers_of (registry_of (fst (subscribe this topic subscriber))) t)"
proof (cases "is_string topic \<and> is_function subscriber")
  case False
  assume "f \<in> set (subscribers_of (registry_of this) t)"
  with False show ?thesis
    using subscribe_invalid [of topic subscriber this] by simp
next
  case True
  assume mem: "f \<in> set (subscribers_of (registry_of this) t)"
  from True obtain t' f' where tf: "topic = VStr t'" "subscriber = VFun f'"
    by (auto simp: is_string_def is_function_def split: jsval.splits)
  from subscribe_valid [of this t' f'] obtain ns' where
    s: "subscribe this (VStr t') (VFun f') = (this\<lparr>pubsub := Some ns'\<rparr>, None)"
    and here: "subscribers_of ns' t' =
         (if f' \<in> set (subscribers_of (registry_of this) t') then subscribers_of (registry_of this) t'
          else subscribers_of (registry_of this) t' @ [f'])"
    and other: "\<forall>k. k \<noteq> t' \<longrightarrow> subscribers_of ns' k = subscribers_of (registry_of this) k"
    by blast
  show ?thesis
  proof (cases "t = t'")
    case True
    with mem here s tf show ?thesis by (auto simp: registry_of_def)
  next
    case False
    with mem other s tf show ?thesis by (auto simp: registry_of_def)
  qed
qed

lemma subscribe_all_wf: "wf_ctx this \<Longrightarrow> wf_ctx (subscribe_all this calls)"
  by (induction calls arbitrary: this) (auto simp: subscribe_wf)

lemma subscribe_all_keeps:
  "f \<in> set (subscribers_of (registry_of this) t) \<Longrightarrow>
   f \<in> set (subscribers_of (registry_of (subscribe_all this calls)) t)"
  by (induction calls arbitrary: this) (auto simp: subscribe_keeps)

lemma subscribe_all_member:
  "(VStr t, VFun f) \<in> set calls \<Longrightarrow>
   f \<in> set (subscribers_of (registry_of (subscribe_all this calls)) t)"
proof (induction calls arbitrary: this)
  case Nil
  then show ?case by simp
next
  case (Cons c calls)
  obtain topic subscriber where c: "c = (topic, subscriber)" by (cases c)
  show ?case
  proof (cases "c = (VStr t, VFun f)")
    case True
    from subscribe_valid [of this t f] have "f \<in> set (subscribers_of (registry_of (fst (subscribe this (VStr t) (VFun f)))) t)"
      by (auto simp: registry_of_def split: if_splits)
    with True show ?thesis by (simp add: subscribe_all_keeps)
  next
    case False
    with Cons.prems have "(VStr t, VFun f) \<in> set calls" by auto
    from Cons.IH [OF this] c show ?thesis by simp
  qed
qed

subsection \<open>\<^verbatim>\<open>forEachTopic\<close> without registry or with an invalid argument\<close>

lemma forEachTopic_no_registry: "pubsub this = None \<Longrightarrow> forEachTopic this topics fn a = ((this, a), None)"
  by (simp add: forEachTopic_def)

lemma to_regex_invalid:
  "\<not> is_string topics \<Longrightarrow> \<not> is_regexp topics \<Longrightarrow> to_regex topics = Inl (TypeError topics_message)"
  by (cases topics) (simp_all add: to_regex_def is_string_def is_regexp_def)

lemma forEachTopic_invalid:
  "pubsub this = Some ns \<Longrightarrow> \<not> is_string topics \<Longrightarrow> \<not> is_regexp topics \<Longrightarrow>
   forEachTopic this topics fn a = ((this, a), Some (TypeError topics_message))"
  by (simp add: forEachTopic_def to_regex_invalid)

subsection \<open>What \<^verbatim>\<open>publish\<close> returns and whom it calls\<close>

lemma count_list_distinct: "distinct xs \<Longrightarrow> count_list xs x = (if x \<in> set xs then 1 else 0)"
  by (induction xs) auto

lemma publish_all_return:
  assumes "pubsub this = Some ns" "to_regex topics = Inr re"
    and "\<forall>f \<in> set (visit_order ns re). \<exists>y. env f this m = Inr y"
  shows "\<exists>results. publish env this topics m = (Inr results, visit_order ns re)
           \<and> map Inr results = map (\<lambda>f. env f this m) (visit_order ns re)"
proof -
  from call_subscribers_all_return [of "visit_order ns re" env this m "[]" "[]"] assms(3)
  obtain ys where "call_subscribers env this m (visit_order ns re) ([], []) = ((ys, visit_order ns re), None)"
    and "map Inr ys = map (\<lambda>f. env f this m) (visit_order ns re)" by auto
  then show ?thesis using publish_run [OF assms(1,2), of env m] by simp
qed

lemma publish_throw:
  assumes "pubsub this = Some ns" "to_regex topics = Inr re"
    and "i < length (visit_order ns re)"
    and "env (visit_order ns re ! i) this m = Inl v"
    and "\<forall>j < i. \<exists>y. env (visit_order ns re ! j) this m = Inr y"
  shows "publish env this topics m = (Inl (Thrown v), take (Suc i) (visit_order ns re))"
proof -
  from call_subscribers_throw [of i "visit_order ns re" env this m v "[]" "[]"] assms(3,4,5)
  obtain rs' where "call_subscribers env this m (visit_order ns re) ([], [])
      = ((rs', take (Suc i) (visit_order ns re)), Some (Thrown v))" by auto
  then show ?thesis using publish_run [OF assms(1,2), of env m] by simp
qed

lemma subscribers_of_empty: "subscribers_of [] t = []"
  by (simp add: subscribers_of_def)

lemma subscribe_again:
  assumes "f \<in> set (subscribers_of (registry_of this) t)"
  shows "subscribe this (VStr t) (VFun f) = (this, None)"
proof -
  have some: "pubsub this \<noteq> None"
  proof
    assume "pubsub this = None"
    then have "registry_of this = []" by (simp add: registry_of_def)
    with assms show False by (simp add: subscribers_of_empty)
  qed
  then have same: "this\<lparr>pubsub := Some (registry_of this)\<rparr> = this"
    by (auto simp: registry_of_def)
  from subscribe_valid [of this t f] assms some same show ?thesis by auto
qed

text \<open>
  After any sequence of \<^verbatim>\<open>subscribe\<close> calls on a well-formed context, one of them with
  topic \<open>t\<close> and function \<open>f\<close>: every topic holds every function at most once, \<open>t\<close>
  holds \<open>f\<close> exactly once, and subscribing \<open>f\<close> to \<open>t\<close> again changes nothing.
\<close>

lemma subscribe_at_most_once:
  assumes "wf_ctx this" "(VStr t, VFun f) \<in> set calls"
  shows "(\<forall>topic g. count_list (subscribers_of (registry_of (subscribe_all this calls)) topic) g \<le> 1)
     \<and> count_list (subscribers_of (registry_of (subscribe_all this calls)) t) f = 1
     \<and> subscribe (subscribe_all this calls) (VStr t) (VFun f) = (subscribe_all this calls, None)"
proof -
  let ?after = "subscribe_all this calls"
  have wf: "wf_registry (registry_of ?after)"
    using subscribe_all_wf [OF assms(1), of calls] by (simp add: wf_ctx_def)
  have mem: "f \<in> set (subscribers_of (registry_of ?after) t)"
    using assms(2) by (rule subscribe_all_member)
  have dist: "distinct (subscribers_of (registry_of ?after) topic)" for topic
    using wf by (rule wf_registry_subscribers)
  have once: "count_list (subscribers_of (registry_of ?after) t) f = 1"
    using dist [of t] mem by (simp add: count_list_distinct)
  have most: "count_list (subscribers_of (registry_of ?after) topic) g \<le> 1" for topic g
    using dist [of topic] by (simp add: count_list_distinct)
  have again: "subscribe ?after (VStr t) (VFun f) = (?after, None)"
    using mem by (rule subscribe_again)
  from most once again show ?thesis by blast
qed

text \<open>
  With a registry, a topics argument that is neither a string nor a \<^verbatim>\<open>RegExp\<close> makes
  both methods raise before a subscriber is called or the context changed.
\<close>

lemma invalid_topics_with_registry:
  assumes "pubsub this = Some ns" "\<not> is_string topics" "\<not> is_regexp topics"
  shows "publish env this topics message = (Inl (TypeError topics_message), [])
     \<and> unsubscribe this topics subscriber = (this, Some (TypeError topics_message))"
  using assms by (simp add: publish_def unsubscribe_def forEachTopic_invalid)

section \<open>The claims\<close>

subsection \<open>C1: invalid topics argument of publish and unsubscribe\<close>

text \<open>
  Claim C1 says that \<^verbatim>\<open>publish\<close> and \<^verbatim>\<open>unsubscribe\<close> raise \<^verbatim>\<open>TypeError\<close> for a topics
  argument that is neither a string nor a \<^verbatim>\<open>RegExp\<close>, whether or not the registry of
  the context exists. The source does not do that: \<^verbatim>\<open>forEachTopic\<close> returns at
  \<^verbatim>\<open>if (!namespace) return;\<close> before it looks at \<^verbatim>\<open>topics\<close>. On a context without
  registry \<^verbatim>\<open>publish(3)\<close> returns the empty array and \<^verbatim>\<open>unsubscribe(3)\<close> returns, and
  nothing is raised; the same two calls on a context that holds a subscription raise
  the \<^verbatim>\<open>TypeError\<close>, as the test of \<^verbatim>\<open>publish(3)\<close> expects and as \<^verbatim>\<open>subscribe\<close>, which
  validates before it touches the registry, does for its own arguments.
\<close>

theorem C1_no_type_error_without_registry:
  "\<not> is_string (VNum 3) \<and> \<not> is_regexp (VNum 3)
   \<and> publish tens no_registry (VNum 3) VUndefined = (Inr [], [])
   \<and> unsubscribe no_registry (VNum 3) VUndefined = (no_registry, None)
   \<and> publish tens \<lparr>pubsub = Some [(''a'', [12])]\<rparr> (VNum 3) VUndefined
       = (Inl (TypeError topics_message), [])
   \<and> unsubscribe \<lparr>pubsub = Some [(''a'', [12])]\<rparr> (VNum 3) VUndefined
       = (\<lparr>pubsub = Some [(''a'', [12])]\<rparr>, Some (TypeError topics_message))"
  by (simp add: is_string_def is_regexp_def publish_def unsubscribe_def forEachTopic_def
      to_regex_def no_registry_def)

subsection \<open>C2: a string without asterisk\<close>

text \<open>
  Claim C2 says that a string specification without asterisk selects a registered key
  exactly when the key is that string. The source does not do that: line 187 puts the
  string between \<^verbatim>\<open>^\<close> and \<^verbatim>\<open>$\<close> without escaping the syntax characters of the pattern
  language, so in \<^verbatim>\<open>a.c\<close> the dot matches any character. With a subscriber on the
  topic \<^verbatim>\<open>abc\<close>, \<^verbatim>\<open>publish('a.c')\<close> calls it. In the other direction, the string
  \<^verbatim>\<open>a+b\<close> does not select the key \<^verbatim>\<open>a+b\<close>: \<^verbatim>\<open>publish('a+b')\<close> calls nobody, against
  the comment of \<^verbatim>\<open>subscribe\<close> (all bound subscribers are called when \<^verbatim>\<open>publish\<close> is
  called with the same topic string).
\<close>

theorem C2_dot_selects_other_key:
  "CHR ''*'' \<notin> set ''a.c'' \<and> ''abc'' \<noteq> ''a.c''
   \<and> to_regex (VStr ''a.c'')
       = Inr [[AssertStart, Atom (Lit (CHR ''a'')) Once, Atom AnyChar Once, Atom (Lit (CHR ''c'')) Once, AssertEnd]]
   \<and> RegExp_test [[AssertStart, Atom (Lit (CHR ''a'')) Once, Atom AnyChar Once, Atom (Lit (CHR ''c'')) Once, AssertEnd]] ''abc''
   \<and> publish tens \<lparr>pubsub = Some [(''abc'', [12])]\<rparr> (VStr ''a.c'') VUndefined = (Inr [VNum 120], [12])
   \<and> CHR ''*'' \<notin> set ''a+b''
   \<and> publish tens \<lparr>pubsub = Some [(''a+b'', [12])]\<rparr> (VStr ''a+b'') VUndefined = (Inr [], [])"
  by (simp add: registry_eval regex_eval method_eval tens_def)

subsection \<open>C3: the escaped asterisk\<close>

text \<open>
  Claim C3 says that in every string specification a backslash followed by an asterisk
  denotes a literal asterisk. The source does that for the specification \<^verbatim>\<open>a\*z\<close>,
  which accepts the key \<^verbatim>\<open>a*z\<close> and neither \<^verbatim>\<open>az\<close> nor \<^verbatim>\<open>amz\<close>. It does not where the
  backslash of the pair is itself preceded by a backslash: the string is handed to
  \<^verbatim>\<open>new RegExp\<close> unescaped, and the first replacement leaves the asterisk alone because
  a backslash precedes it. The four characters \<^verbatim>\<open>a\\*\<close> become the pattern \<^verbatim>\<open>^a\\*$\<close>, an
  \<^verbatim>\<open>a\<close> followed by any number of backslashes: it accepts the key \<^verbatim>\<open>a\<close>, it accepts
  neither \<^verbatim>\<open>a*\<close> nor \<^verbatim>\<open>a\*\<close>, and \<^verbatim>\<open>publish\<close> with it calls the subscriber of \<^verbatim>\<open>a\<close> and
  not the one of \<^verbatim>\<open>a*\<close>.
\<close>

theorem C3_escaped_backslash_before_asterisk:
  "drop 2 [CHR ''a'', backslash, backslash, CHR ''*''] = [backslash, CHR ''*'']
   \<and> to_regex (VStr [CHR ''a'', backslash, backslash, CHR ''*''])
       = Inr [[AssertStart, Atom (Lit (CHR ''a'')) Once, Atom (Lit backslash) ZeroOrMore, AssertEnd]]
   \<and> RegExp_test [[AssertStart, Atom (Lit (CHR ''a'')) Once, Atom (Lit backslash) ZeroOrMore, AssertEnd]] ''a''
   \<and> \<not> RegExp_test [[AssertStart, Atom (Lit (CHR ''a'')) Once, Atom (Lit backslash) ZeroOrMore, AssertEnd]] ''a*''
   \<and> \<not> RegExp_test [[AssertStart, Atom (Lit (CHR ''a'')) Once, Atom (Lit backslash) ZeroOrMore, AssertEnd]]
         [CHR ''a'', backslash, CHR ''*'']
   \<and> publish tens \<lparr>pubsub = Some [(''a'', [12]), (''a*'', [13])]\<rparr>
         (VStr [CHR ''a'', backslash, backslash, CHR ''*'']) VUndefined = (Inr [VNum 120], [12])
   \<and> to_regex (VStr [CHR ''a'', backslash, CHR ''*'', CHR ''z''])
       = Inr [[AssertStart, Atom (Lit (CHR ''a'')) Once, Atom (Lit (CHR ''*'')) Once,
               Atom (Lit (CHR ''z'')) Once, AssertEnd]]
   \<and> publish tens \<lparr>pubsub = Some [(''az'', [12]), (''amz'', [13]), (''a*z'', [14])]\<rparr>
         (VStr [CHR ''a'', backslash, CHR ''*'', CHR ''z'']) VUndefined = (Inr [VNum 140], [14])"
  by (simp add: registry_eval regex_eval method_eval tens_def)

subsection \<open>C4: the array returned by publish\<close>

text \<open>
  Claim C4, as stated, fails in the order of the topics. It says that the matching
  topics are visited in the order in which they were inserted into the registry. The
  loop is \<^verbatim>\<open>for (var topic in namespace)\<close>, which enumerates the keys that are array
  indices first, in ascending numeric order: after \<^verbatim>\<open>subscribe('b', f12)\<close> and
  \<^verbatim>\<open>subscribe('1', f13)\<close>, \<^verbatim>\<open>publish('*')\<close> calls \<open>f13\<close> before \<open>f12\<close> and returns their
  results in that order.
\<close>

theorem C4_counterexample:
  "subscribe_all no_registry [(VStr ''b'', VFun 12), (VStr ''1'', VFun 13)]
     = \<lparr>pubsub = Some [(''b'', [12]), (''1'', [13])]\<rparr>
   \<and> publish tens \<lparr>pubsub = Some [(''b'', [12]), (''1'', [13])]\<rparr> (VStr ''*'') VUndefined
     = (Inr [VNum 130, VNum 120], [13, 12])"
  by (simp add: registry_eval regex_eval method_eval tens_def no_registry_def)

text \<open>
  Claim C4, amended. When no subscriber throws, \<^verbatim>\<open>publish\<close> returns one flat array that
  holds exactly the value returned by each subscriber called, unchanged (a promise as
  any other value), in the order of the calls; the calls are those of \<open>visit_order\<close>:
  the matching topics in the enumeration order of the registry (array-index keys in
  ascending numeric order, then the other keys in insertion order), and under each
  topic the subscribers in subscription order. Where no key of the registry is an array
  index, the enumeration order is the insertion order. Without registry the array is
  empty.
\<close>

theorem C4_publish_results:
  "(pubsub this = Some ns \<and> to_regex topics = Inr re
      \<and> (\<forall>f \<in> set (visit_order ns re). \<exists>y. env f this m = Inr y) \<longrightarrow>
      (\<exists>results. publish env this topics m = (Inr results, visit_order ns re)
         \<and> map Inr results = map (\<lambda>f. env f this m) (visit_order ns re)))
   \<and> (list_all (\<lambda>k. \<not> is_array_index k) (map fst ns) \<longrightarrow> for_in_keys ns = map fst ns)
   \<and> (pubsub this = None \<longrightarrow> publish env this topics m = (Inr [], []))"
  using publish_all_return [of this ns topics re env m] for_in_keys_insertion_order [of ns]
  by (auto simp: publish_def forEachTopic_no_registry)

text \<open>
  Claim C4, instance of the amended statement: \<^verbatim>\<open>publish('a*')\<close> on a registry with the
  topics \<^verbatim>\<open>abe\<close>, \<^verbatim>\<open>babe\<close>, \<^verbatim>\<open>ape\<close>, where subscriber 13 returns a promise.
\<close>

theorem C4_witness:
  "(\<exists>results. publish promises \<lparr>pubsub = Some [(''abe'', [12, 13]), (''babe'', [14]), (''ape'', [13, 15])]\<rparr>
                 (VStr ''a*'') VUndefined = (Inr results, [12, 13, 13, 15])
      \<and> map Inr results = [Inr (VNum 120), Inr (VPromise 7), Inr (VPromise 7), Inr (VNum 150) :: jsval + jsval])
   \<and> for_in_keys [(''abe'', [12, 13]), (''babe'', [14]), (''ape'', [13, 15])] = [''abe'', ''babe'', ''ape'']
   \<and> publish promises no_registry (VStr ''a*'') VUndefined = (Inr [], [])"
proof -
  let ?ns = "[(''abe'', [12, 13]), (''babe'', [14]), (''ape'', [13, 15])] :: registry"
  let ?re = "[[AssertStart, Atom (Lit (CHR ''a'')) Once, Atom AnyChar ZeroOrMore, AssertEnd]]"
  let ?c = "\<lparr>pubsub = Some ?ns\<rparr>"
  have re: "to_regex (VStr ''a*'') = Inr ?re" by (simp add: regex_eval)
  have vo: "visit_order ?ns ?re = [12, 13, 13, 15]" by (simp add: registry_eval regex_eval)
  have idx: "list_all (\<lambda>k. \<not> is_array_index k) (map fst ?ns)" by (simp add: registry_eval)
  have ret: "\<forall>f \<in> set [12, 13, 13, 15]. \<exists>y. promises f ?c VUndefined = Inr y"
    by (simp add: promises_def)
  have vals: "map (\<lambda>f. promises f ?c VUndefined) [12, 13, 13, 15]
      = [Inr (VNum 120), Inr (VPromise 7), Inr (VPromise 7), Inr (VNum 150)]"
    by (simp add: promises_def)
  have none: "pubsub no_registry = None" by (simp add: no_registry_def)
  have sel: "pubsub ?c = Some ?ns" by simp
  note here = C4_publish_results [of ?c ?ns "VStr ''a*''" ?re promises VUndefined, unfolded vo vals]
  note there = C4_publish_results [of no_registry ?ns "VStr ''a*''" ?re promises VUndefined]
  show ?thesis
  proof (intro conjI)
    show "\<exists>results. publish promises ?c (VStr ''a*'') VUndefined = (Inr results, [12, 13, 13, 15])
       \<and> map Inr results = [Inr (VNum 120), Inr (VPromise 7), Inr (VPromise 7), Inr (VNum 150) :: jsval + jsval]"
      using here sel re ret by blast
    have "for_in_keys ?ns = map fst ?ns"
      using here idx by blast
    then show "for_in_keys ?ns = [''abe'', ''babe'', ''ape'']" by simp
    show "publish promises no_registry (VStr ''a*'') VUndefined = (Inr [], [])"
      using there none by blast
  qed
qed

subsection \<open>C5: a subscriber is bound to a topic at most once\<close>

text \<open>
  Claim C5 says that a topic holds a function at most once, that a second
  \<^verbatim>\<open>subscribe\<close> of the same pair is a no-op, and that a later \<^verbatim>\<open>publish\<close> to that topic
  calls the function exactly once. The first two hold (lemma \<open>subscribe_at_most_once\<close>).
  The third does not, for the reason of C2: \<^verbatim>\<open>publish\<close> hands the topic string to
  \<^verbatim>\<open>new RegExp\<close> unescaped. After \<^verbatim>\<open>subscribe('a+b', f12)\<close> twice the registry holds
  \<open>f12\<close> once under \<^verbatim>\<open>a+b\<close>, and \<^verbatim>\<open>publish('a+b')\<close> calls nobody; after
  \<^verbatim>\<open>subscribe('a.c', f12)\<close> twice and \<^verbatim>\<open>subscribe('abc', f12)\<close>, \<^verbatim>\<open>publish('a.c')\<close> calls
  \<open>f12\<close> twice.
\<close>

theorem C5_publish_to_subscribed_topic:
  "subscribe_all no_registry [(VStr ''a+b'', VFun 12), (VStr ''a+b'', VFun 12)]
     = \<lparr>pubsub = Some [(''a+b'', [12])]\<rparr>
   \<and> publish tens \<lparr>pubsub = Some [(''a+b'', [12])]\<rparr> (VStr ''a+b'') VUndefined = (Inr [], [])
   \<and> subscribe_all no_registry [(VStr ''a.c'', VFun 12), (VStr ''a.c'', VFun 12), (VStr ''abc'', VFun 12)]
     = \<lparr>pubsub = Some [(''a.c'', [12]), (''abc'', [12])]\<rparr>
   \<and> publish tens \<lparr>pubsub = Some [(''a.c'', [12]), (''abc'', [12])]\<rparr> (VStr ''a.c'') VUndefined
     = (Inr [VNum 120, VNum 120], [12, 12])"
  by (simp add: registry_eval regex_eval method_eval tens_def no_registry_def)

subsection \<open>C6: unsubscribe\<close>

text \<open>
  Claim C6. On a context with a registry, for a topics argument that compiles to the
  pattern \<open>re\<close>: \<^verbatim>\<open>unsubscribe\<close> with a function removes that reference from the array
  of every topic the pattern accepts (\<open>remove1\<close> leaves an array without it as it is),
  changes no other array, and keeps every key, also one whose array has become empty;
  \<^verbatim>\<open>unsubscribe\<close> without subscriber deletes the entry of every topic the pattern
  accepts, and no other. Neither raises.
\<close>

theorem C6_unsubscribe:
  assumes "pubsub this = Some ns" "distinct (map fst ns)" "to_regex topics = Inr re"
  shows "unsubscribe this topics (VFun f)
           = (this\<lparr>pubsub := Some (map (\<lambda>(k, s). (k, if RegExp_test re k then remove1 f s else s)) ns)\<rparr>, None)
     \<and> map fst (registry_of (fst (unsubscribe this topics (VFun f)))) = map fst ns
     \<and> unsubscribe this topics VUndefined
           = (this\<lparr>pubsub := Some (filter (\<lambda>(k, s). \<not> RegExp_test re k) ns)\<rparr>, None)"
proof -
  have falsy: "\<not> truthy VUndefined" by (simp add: truthy_def)
  have "map fst (map (\<lambda>(k, s). (k, if RegExp_test re k then remove1 f s else s)) ns) = map fst ns"
    by (induction ns) auto
  then show ?thesis
    using unsubscribe_function [OF assms, of f] unsubscribe_falsy [OF assms(1,3) falsy]
    by (simp add: registry_of_def)
qed

text \<open>
  Claim C6, instance: \<^verbatim>\<open>unsubscribe('a*e', f13)\<close> empties the array of \<^verbatim>\<open>ape\<close> and keeps
  the key; \<^verbatim>\<open>unsubscribe('a*e')\<close> deletes \<^verbatim>\<open>abe\<close> and \<^verbatim>\<open>ape\<close>.
\<close>

theorem C6_witness:
  "unsubscribe \<lparr>pubsub = Some [(''abe'', [12, 13]), (''ape'', [13]), (''babe'', [13, 14]), (''ax'', [15])]\<rparr>
       (VStr ''a*e'') (VFun 13)
     = (\<lparr>pubsub = Some [(''abe'', [12]), (''ape'', []), (''babe'', [13, 14]), (''ax'', [15])]\<rparr>, None)
   \<and> unsubscribe \<lparr>pubsub = Some [(''abe'', [12, 13]), (''ape'', [13]), (''babe'', [13, 14]), (''ax'', [15])]\<rparr>
       (VStr ''a*e'') VUndefined
     = (\<lparr>pubsub = Some [(''babe'', [13, 14]), (''ax'', [15])]\<rparr>, None)"
proof -
  let ?ns = "[(''abe'', [12, 13]), (''ape'', [13]), (''babe'', [13, 14]), (''ax'', [15])] :: registry"
  let ?re = "[[AssertStart, Atom (Lit (CHR ''a'')) Once, Atom AnyChar ZeroOrMore, Atom (Lit (CHR ''e'')) Once, AssertEnd]]"
  have sel: "pubsub \<lparr>pubsub = Some ?ns\<rparr> = Some ?ns" by simp
  have keys: "distinct (map fst ?ns)" by simp
  have re: "to_regex (VStr ''a*e'') = Inr ?re" by (simp add: regex_eval)
  have m1: "RegExp_test ?re ''abe''" and m2: "RegExp_test ?re ''ape''"
    and m3: "\<not> RegExp_test ?re ''babe''" and m4: "\<not> RegExp_test ?re ''ax''"
    by (simp_all add: regex_eval)
  from C6_unsubscribe [OF sel keys re, of 13] m1 m2 m3 m4 show ?thesis by simp
qed

subsection \<open>C7: a subscriber that throws\<close>

text \<open>
  Claim C7. If, in the order of the visit, the subscriber at position \<open>i\<close> is the
  first one that throws, and it throws \<open>v\<close>, then \<^verbatim>\<open>publish\<close> raises exactly \<open>v\<close>, returns
  no array, and the subscribers it has called are the first \<open>i + 1\<close> of the visit: no
  later subscriber of that topic or of a following topic is called.
\<close>

theorem C7_subscriber_throws:
  assumes "pubsub this = Some ns" "to_regex topics = Inr re"
    and "i < length (visit_order ns re)"
    and "env (visit_order ns re ! i) this m = Inl v"
    and "\<forall>j < i. \<exists>y. env (visit_order ns re ! j) this m = Inr y"
  shows "publish env this topics m = (Inl (Thrown v), take (Suc i) (visit_order ns re))"
  using assms by (rule publish_throw)

text \<open>
  Claim C7, instance: of the subscribers 12, 13, 14 of \<^verbatim>\<open>abe\<close> and 15 of \<^verbatim>\<open>ape\<close>, number
  13 throws; \<^verbatim>\<open>publish('a*')\<close> raises its value after calling 12 and 13 only.
\<close>

theorem C7_witness:
  "publish second_throws \<lparr>pubsub = Some [(''abe'', [12, 13, 14]), (''ape'', [15])]\<rparr> (VStr ''a*'') VUndefined
     = (Inl (Thrown (VStr ''boom'')), [12, 13])"
proof -
  let ?ns = "[(''abe'', [12, 13, 14]), (''ape'', [15])] :: registry"
  let ?re = "[[AssertStart, Atom (Lit (CHR ''a'')) Once, Atom AnyChar ZeroOrMore, AssertEnd]]"
  let ?c = "\<lparr>pubsub = Some ?ns\<rparr>"
  have sel: "pubsub ?c = Some ?ns" by simp
  have re: "to_regex (VStr ''a*'') = Inr ?re" by (simp add: regex_eval)
  have vo: "visit_order ?ns ?re = [12, 13, 14, 15]" by (simp add: registry_eval regex_eval)
  have i: "1 < length [12, 13, 14, 15 :: nat]" by simp
  have thr: "second_throws ([12, 13, 14, 15] ! 1) ?c VUndefined = Inl (VStr ''boom'')"
    by (simp add: second_throws_def)
  have before: "\<forall>j < 1. \<exists>y. second_throws ([12, 13, 14, 15] ! j) ?c VUndefined = Inr y"
    by (simp add: second_throws_def)
  have tk: "take (Suc 1) [12, 13, 14, 15 :: nat] = [12, 13]" by simp
  note inst = C7_subscriber_throws [of ?c ?ns "VStr ''a*''" ?re 1 second_throws VUndefined "VStr ''boom''",
      unfolded vo tk]
  show ?thesis by (rule inst) (rule sel re i thr before)+
qed

subsection \<open>C8: anchoring\<close>

text \<open>
  Claim C8 says that every pattern derived from a string is anchored to the whole
  topic key. The source adds \<^verbatim>\<open>^\<close> in front and \<^verbatim>\<open>$\<close> behind, but it does not escape
  \<^verbatim>\<open>|\<close>: the string \<^verbatim>\<open>a*|b\<close> becomes \<^verbatim>\<open>^a.*|b$\<close>, a disjunction whose second alternative
  is not anchored at the start. It accepts the key \<^verbatim>\<open>xb\<close> although no match starts at
  the beginning of the key, and \<^verbatim>\<open>publish('a*|b')\<close> calls the subscriber of \<^verbatim>\<open>xb\<close>.
\<close>

theorem C8_alternation_escapes_anchors:
  "to_regex (VStr ''a*|b'')
     = Inr [[AssertStart, Atom (Lit (CHR ''a'')) Once, Atom AnyChar ZeroOrMore],
            [Atom (Lit (CHR ''b'')) Once, AssertEnd]]
   \<and> RegExp_test [[AssertStart, Atom (Lit (CHR ''a'')) Once, Atom AnyChar ZeroOrMore],
                   [Atom (Lit (CHR ''b'')) Once, AssertEnd]] ''xb''
   \<and> \<not> match_at [[AssertStart, Atom (Lit (CHR ''a'')) Once, Atom AnyChar ZeroOrMore],
                   [Atom (Lit (CHR ''b'')) Once, AssertEnd]] (True, ''xb'')
   \<and> publish tens \<lparr>pubsub = Some [(''xb'', [12])]\<rparr> (VStr ''a*|b'') VUndefined = (Inr [VNum 120], [12])"
  by (simp add: registry_eval regex_eval method_eval tens_def)

subsection \<open>C9: invalid arguments of subscribe\<close>

text \<open>
  Claim C9. \<^verbatim>\<open>subscribe\<close> raises a \<^verbatim>\<open>TypeError\<close> exactly when the topic is not a string or
  the subscriber is not a function; whenever it raises, the context is unchanged (no
  registry is created, nothing is added); with valid arguments it does not raise.
\<close>

theorem C9_subscribe_type_error:
  "((\<exists>msg. snd (subscribe this topic subscriber) = Some (TypeError msg))
      \<longleftrightarrow> (\<not> is_string topic \<or> \<not> is_function subscriber))
   \<and> (snd (subscribe this topic subscriber) \<noteq> None \<longrightarrow> fst (subscribe this topic subscriber) = this)
   \<and> (is_string topic \<and> is_function subscriber \<longrightarrow> snd (subscribe this topic subscriber) = None)"
proof (cases "is_string topic \<and> is_function subscriber")
  case False
  with subscribe_invalid [OF False, of this] show ?thesis by auto
next
  case True
  then obtain t f where "topic = VStr t" "subscriber = VFun f"
    by (auto simp: is_string_def is_function_def split: jsval.splits)
  with True subscribe_valid [of this t f] show ?thesis by auto
qed

text \<open>
  Claim C9, instances: \<^verbatim>\<open>subscribe(3, f)\<close>, \<^verbatim>\<open>subscribe('a', 3)\<close> and \<^verbatim>\<open>subscribe('a', f)\<close>
  on a context without registry.
\<close>

theorem C9_witness:
  "(\<exists>msg. snd (subscribe no_registry (VNum 3) (VFun 1)) = Some (TypeError msg))
   \<and> fst (subscribe no_registry (VNum 3) (VFun 1)) = no_registry
   \<and> (\<exists>msg. snd (subscribe no_registry (VStr ''a'') (VNum 3)) = Some (TypeError msg))
   \<and> fst (subscribe no_registry (VStr ''a'') (VNum 3)) = no_registry
   \<and> snd (subscribe no_registry (VStr ''a'') (VFun 1)) = None"
  using C9_subscribe_type_error [of no_registry "VNum 3" "VFun 1"]
    C9_subscribe_type_error [of no_registry "VStr ''a''" "VNum 3"]
    C9_subscribe_type_error [of no_registry "VStr ''a''" "VFun 1"]
  by (auto simp: is_string_def is_function_def)

subsection \<open>C10: a falsy subscriber argument of unsubscribe\<close>

text \<open>
  Claim C10. With a falsy second argument \<^verbatim>\<open>unsubscribe\<close> does exactly what it does
  when the argument is omitted; on a context with a registry and a topics argument that
  compiles, it deletes the entry of every topic the pattern accepts and raises nothing.
\<close>

theorem C10_falsy_subscriber:
  assumes "\<not> truthy v"
  shows "unsubscribe this topics v = unsubscribe this topics VUndefined
     \<and> (\<forall>ns re. pubsub this = Some ns \<and> to_regex topics = Inr re \<longrightarrow>
           unsubscribe this topics v
             = (this\<lparr>pubsub := Some (filter (\<lambda>(k, s). \<not> RegExp_test re k) ns)\<rparr>, None))"
proof -
  have "unsubscribe_fn v = unsubscribe_fn VUndefined"
    using assms by (intro ext) (simp add: unsubscribe_fn_def truthy_def)
  then have "unsubscribe this topics v = unsubscribe this topics VUndefined"
    by (simp add: unsubscribe_def)
  with assms show ?thesis by (auto simp: unsubscribe_falsy)
qed

text \<open>
  Claim C10, instance: \<^verbatim>\<open>null\<close>, \<^verbatim>\<open>0\<close>, \<^verbatim>\<open>false\<close> and the empty string are falsy, and
  \<^verbatim>\<open>unsubscribe('a', null)\<close> deletes the topic \<^verbatim>\<open>a\<close> as \<^verbatim>\<open>unsubscribe('a')\<close> does.
\<close>

theorem C10_witness:
  "\<not> truthy VNull \<and> \<not> truthy (VNum 0) \<and> \<not> truthy (VBool False) \<and> \<not> truthy (VStr [])
   \<and> unsubscribe \<lparr>pubsub = Some [(''a'', [1, 2]), (''b'', [3])]\<rparr> (VStr ''a'') VNull
       = (\<lparr>pubsub = Some [(''b'', [3])]\<rparr>, None)
   \<and> unsubscribe \<lparr>pubsub = Some [(''a'', [1, 2]), (''b'', [3])]\<rparr> (VStr ''a'') VUndefined
       = (\<lparr>pubsub = Some [(''b'', [3])]\<rparr>, None)"
proof -
  have falsy: "\<not> truthy VNull" by (simp add: truthy_def)
  have re: "to_regex (VStr ''a'') = Inr (literal_pattern ''a'')"
    by (rule to_regex_literal) (simp add: syntax_character_def)
  from C10_falsy_subscriber [OF falsy, of "\<lparr>pubsub = Some [(''a'', [1, 2]), (''b'', [3])]\<rparr>" "VStr ''a''"] re
  show ?thesis
    by (auto simp: truthy_def RegExp_test_literal)
qed

end
